theory Spec2Isabelle
  imports Main "HOL-Library.Multiset" "HOL-Library.Monad_Syntax"
begin

section \<open>The binary search tree of \<open>src/Customlib/BST.js\<close>\<close>

text \<open>
  The module builds a tree of \<open>Node\<close> objects that it mutates in place, and prints keys
  with \<open>console.log\<close>. The embedding therefore runs every operation on an explicit
  world: the object heap and the console. A reference is \<open>null\<close> (\<open>None\<close>) or the
  address of a \<open>Node\<close> (\<open>Some a\<close>); this is the reference type the module itself
  produces (the constructor stores \<open>null\<close> in both links, the caller starts from
  \<open>let root = null\<close>), so \<open>== null\<close> and \<open>=== null\<close> coincide on it.
  An address is an index into the heap, and \<open>new Node\<close> allocates at the end.

  Keys are compared with \<open><=\<close> only; the key type is any linear order
  (numbers without NaN, or strings).

  Every operation returns an \<open>option\<close>: \<open>None\<close> stands for a run that yields no result,
  either because the recursion never ends (a cyclic structure) or because it follows
  an address outside the heap, which no JavaScript reference can be. The call stack is
  taken as unbounded, and \<open>count\<close> is a natural number.
\<close>

subsection \<open>Objects, heap and console\<close>

type_synonym ref = "nat option"

text \<open>\<open>class Node\<close>; the fields in the order the constructor assigns them.\<close>

record 'a Node =
  left :: ref
  right :: ref
  data :: 'a

record 'a world =
  heap :: "'a Node list"
  console :: "'a list"

text \<open>What a traversal returns: \<open>null\<close> from the early return, \<open>undefined\<close> otherwise.\<close>

datatype jsvoid = Null | Undefined

text \<open>\<open>new Node(data)\<close>: both links \<open>null\<close>, allocated at a fresh address.\<close>

definition new_Node :: "'a \<Rightarrow> 'a world \<Rightarrow> ref \<times> 'a world" where
  "new_Node d w =
     (Some (length (heap w)),
      w\<lparr>heap := heap w @ [\<lparr>left = None, right = None, data = d\<rparr>]\<rparr>)"

text \<open>Reading the object behind a reference, and the two field stores of \<open>insert\<close>.\<close>

definition get_node :: "'a world \<Rightarrow> nat \<Rightarrow> 'a Node option" where
  "get_node w a = (if a < length (heap w) then Some (heap w ! a) else None)"

definition set_left :: "nat \<Rightarrow> ref \<Rightarrow> 'a world \<Rightarrow> 'a world option" where
  "set_left a r w =
     (if a < length (heap w)
      then Some (w\<lparr>heap := (heap w)[a := (heap w ! a)\<lparr>left := r\<rparr>]\<rparr>)
      else None)"

definition set_right :: "nat \<Rightarrow> ref \<Rightarrow> 'a world \<Rightarrow> 'a world option" where
  "set_right a r w =
     (if a < length (heap w)
      then Some (w\<lparr>heap := (heap w)[a := (heap w ! a)\<lparr>right := r\<rparr>]\<rparr>)
      else None)"

definition console_log :: "'a \<Rightarrow> 'a world \<Rightarrow> 'a world" where
  "console_log v w = w\<lparr>console := console w @ [v]\<rparr>"

subsection \<open>The operations\<close>

text \<open>
  \<^verbatim>\<open>
  export const insert = (node, data) => {
    if (node == null) {
      return new Node(data);
    } else {
      if (data <= node.data) {
        node.left = insert(node.left, data);
      } else {
        node.right = insert(node.right, data);
      }
      return node;
    }
  };
  \<close>
  The store \<open>node.left = ...\<close> happens after the recursive call, in the world that
  call leaves behind.
\<close>

partial_function (option)
  insert_bst :: "'a::linorder world \<Rightarrow> ref \<Rightarrow> 'a \<Rightarrow> (ref \<times> 'a world) option"
where
  "insert_bst w node d =
     (case node of
        None \<Rightarrow> Some (new_Node d w)
      | Some a \<Rightarrow>
          do {
            n \<leftarrow> get_node w a;
            if d \<le> data n then
              do {
                (r, w1) \<leftarrow> insert_bst w (left n) d;
                w2 \<leftarrow> set_left a r w1;
                Some (Some a, w2)
              }
            else
              do {
                (r, w1) \<leftarrow> insert_bst w (right n) d;
                w2 \<leftarrow> set_right a r w1;
                Some (Some a, w2)
              }
          })"

declare insert_bst.simps [code]

text \<open>
  \<^verbatim>\<open>
  export const min = (node) => {
    if (node === null) return null;
    let minValue = node.data;
    while (node.left !== null) {
      node = node.left;
      minValue = node.data;
    }
    return minValue;
  };
  \<close>
  \<open>min_loop\<close> is the \<open>while\<close> loop on its two locals, the cursor and \<open>minValue\<close>.
  The result \<open>None\<close> of \<open>min_bst\<close> inside \<open>Some\<close> is the returned \<open>null\<close>.
\<close>

partial_function (option)
  min_loop :: "'a world \<Rightarrow> nat \<Rightarrow> 'a \<Rightarrow> ('a \<times> 'a world) option"
where
  "min_loop w a minValue =
     do {
       n \<leftarrow> get_node w a;
       case left n of
         None \<Rightarrow> Some (minValue, w)
       | Some b \<Rightarrow> do { m \<leftarrow> get_node w b; min_loop w b (data m) }
     }"

declare min_loop.simps [code]

definition min_bst :: "'a world \<Rightarrow> ref \<Rightarrow> ('a option \<times> 'a world) option" where
  "min_bst w node =
     (case node of
        None \<Rightarrow> Some (None, w)
      | Some a \<Rightarrow>
          do {
            n \<leftarrow> get_node w a;
            (v, w1) \<leftarrow> min_loop w a (data n);
            Some (Some v, w1)
          })"

text \<open>
  \<^verbatim>\<open>
  export const count = (node) => {
    if (node == null) return 0;
    return count(node.left) + count(node.right) + 1;
  };
  \<close>
\<close>

partial_function (option)
  count_bst :: "'a world \<Rightarrow> ref \<Rightarrow> (nat \<times> 'a world) option"
where
  "count_bst w node =
     (case node of
        None \<Rightarrow> Some (0, w)
      | Some a \<Rightarrow>
          do {
            n \<leftarrow> get_node w a;
            (cl, w1) \<leftarrow> count_bst w (left n);
            n1 \<leftarrow> get_node w1 a;
            (cr, w2) \<leftarrow> count_bst w1 (right n1);
            Some (cl + cr + 1, w2)
          })"

declare count_bst.simps [code]

text \<open>
  \<^verbatim>\<open>
  export const inOrder = (node) => {
    if (node == null) return null;
    inOrder(node.left);
    console.log(node.data);
    inOrder(node.right);
  };
  \<close>
  and \<open>preOrder\<close>, \<open>postOrder\<close> with the \<open>console.log\<close> first and last. Each field is
  read in the world current at that statement.
\<close>

partial_function (option)
  inOrder :: "'a world \<Rightarrow> ref \<Rightarrow> (jsvoid \<times> 'a world) option"
where
  "inOrder w node =
     (case node of
        None \<Rightarrow> Some (Null, w)
      | Some a \<Rightarrow>
          do {
            n \<leftarrow> get_node w a;
            (u, w1) \<leftarrow> inOrder w (left n);
            n1 \<leftarrow> get_node w1 a;
            n2 \<leftarrow> get_node (console_log (data n1) w1) a;
            (v, w3) \<leftarrow> inOrder (console_log (data n1) w1) (right n2);
            Some (Undefined, w3)
          })"

declare inOrder.simps [code]

partial_function (option)
  preOrder :: "'a world \<Rightarrow> ref \<Rightarrow> (jsvoid \<times> 'a world) option"
where
  "preOrder w node =
     (case node of
        None \<Rightarrow> Some (Null, w)
      | Some a \<Rightarrow>
          do {
            n \<leftarrow> get_node w a;
            n1 \<leftarrow> get_node (console_log (data n) w) a;
            (u, w2) \<leftarrow> preOrder (console_log (data n) w) (left n1);
            n2 \<leftarrow> get_node w2 a;
            (v, w3) \<leftarrow> preOrder w2 (right n2);
            Some (Undefined, w3)
          })"

declare preOrder.simps [code]

partial_function (option)
  postOrder :: "'a world \<Rightarrow> ref \<Rightarrow> (jsvoid \<times> 'a world) option"
where
  "postOrder w node =
     (case node of
        None \<Rightarrow> Some (Null, w)
      | Some a \<Rightarrow>
          do {
            n \<leftarrow> get_node w a;
            (u, w1) \<leftarrow> postOrder w (left n);
            n1 \<leftarrow> get_node w1 a;
            (v, w2) \<leftarrow> postOrder w1 (right n1);
            n2 \<leftarrow> get_node w2 a;
            Some (Undefined, console_log (data n2) w2)
          })"

declare postOrder.simps [code]

text \<open>
  The caller, \<open>executeNodeCase\<close> of the demo component:
  \<^verbatim>\<open>
  let nodeData = [4, 2, 1, 3, 6, 5];
  let root = null;
  nodeData.forEach((key) => {
    root = insert(root, key);
  });
  return "Minimum value in BST is " + inOrder(root);
  \<close>
  \<open>forEach_insert\<close> is the loop on the variable \<open>root\<close>.
\<close>

fun forEach_insert :: "'a::linorder world \<Rightarrow> ref \<Rightarrow> 'a list \<Rightarrow> (ref \<times> 'a world) option" where
  "forEach_insert w root [] = Some (root, w)"
| "forEach_insert w root (key # keys) =
     do { (r, w1) \<leftarrow> insert_bst w root key; forEach_insert w1 r keys }"

fun jsvoid_to_string :: "jsvoid \<Rightarrow> string" where
  "jsvoid_to_string Null = ''null''"
| "jsvoid_to_string Undefined = ''undefined''"

definition executeNodeCase :: "int world \<Rightarrow> (string \<times> int world) option" where
  "executeNodeCase w =
     do {
       (root, w1) \<leftarrow> forEach_insert w None [4, 2, 1, 3, 6, 5];
       (v, w2) \<leftarrow> inOrder w1 root;
       Some (''Minimum value in BST is '' @ jsvoid_to_string v, w2)
     }"

subsection \<open>Trees in the heap\<close>

text \<open>
  The spec's data model: a tree is a root reference whose nodes each own their two
  subtrees, with no sharing and no cycle. \<open>tree\<close> records such a structure together
  with the address of each node; \<open>repr h r t\<close> says that reference \<open>r\<close> in heap \<open>h\<close>
  unfolds to \<open>t\<close>, and \<open>distinct (addrs t)\<close> that no node occurs twice.
\<close>

datatype 'a tree = Leaf | Branch nat "'a tree" 'a "'a tree"

fun addrs :: "'a tree \<Rightarrow> nat list" where
  "addrs Leaf = []"
| "addrs (Branch a l x r) = a # addrs l @ addrs r"

fun repr :: "'a Node list \<Rightarrow> ref \<Rightarrow> 'a tree \<Rightarrow> bool" where
  "repr h None Leaf = True"
| "repr h (Some a) (Branch b l x r) =
     (a = b \<and> a < length h \<and> data (h ! a) = x \<and>
      repr h (left (h ! a)) l \<and> repr h (right (h ! a)) r)"
| "repr h None (Branch b l x r) = False"
| "repr h (Some a) Leaf = False"

definition is_tree :: "'a Node list \<Rightarrow> ref \<Rightarrow> 'a tree \<Rightarrow> bool" where
  "is_tree h r t = (repr h r t \<and> distinct (addrs t))"

subsection \<open>What the spec says of a tree\<close>

text \<open>The three orders of the spec: left-root-right, root-left-right, left-right-root.\<close>

fun in_order :: "'a tree \<Rightarrow> 'a list" where
  "in_order Leaf = []"
| "in_order (Branch a l x r) = in_order l @ [x] @ in_order r"

fun pre_order :: "'a tree \<Rightarrow> 'a list" where
  "pre_order Leaf = []"
| "pre_order (Branch a l x r) = [x] @ pre_order l @ pre_order r"

fun post_order :: "'a tree \<Rightarrow> 'a list" where
  "post_order Leaf = []"
| "post_order (Branch a l x r) = post_order l @ post_order r @ [x]"

text \<open>
  The ordering invariant in the spec's words: for every node N, every key in the left
  subtree is \<open>\<le> N.data\<close> and every key in the right subtree is \<open>> N.data\<close>.
\<close>

fun ordered :: "'a::linorder tree \<Rightarrow> bool" where
  "ordered Leaf = True"
| "ordered (Branch a l x r) =
     ((\<forall>y \<in> set (in_order l). y \<le> x) \<and> (\<forall>y \<in> set (in_order r). x < y) \<and>
      ordered l \<and> ordered r)"

text \<open>The node reached by walking left children until there is none.\<close>

fun leftmost :: "'a tree \<Rightarrow> 'a option" where
  "leftmost Leaf = None"
| "leftmost (Branch a Leaf x r) = Some x"
| "leftmost (Branch a l x r) = leftmost l"

text \<open>The number of nodes; it does not look at the keys.\<close>

fun nodes :: "'a tree \<Rightarrow> nat" where
  "nodes Leaf = 0"
| "nodes (Branch a l x r) = 1 + nodes l + nodes r"

text \<open>
  The tree \<open>insert\<close> leaves behind, when the new node is allocated at address \<open>n\<close>;
  \<open>ins_all\<close> follows the caller's loop, each node one address after the last.
\<close>

fun ins :: "nat \<Rightarrow> 'a::linorder \<Rightarrow> 'a tree \<Rightarrow> 'a tree" where
  "ins n k Leaf = Branch n Leaf k Leaf"
| "ins n k (Branch a l x r) =
     (if k \<le> x then Branch a (ins n k l) x r else Branch a l x (ins n k r))"

fun ins_all :: "nat \<Rightarrow> 'a::linorder list \<Rightarrow> 'a tree \<Rightarrow> 'a tree" where
  "ins_all n [] t = t"
| "ins_all n (k # ks) t = ins_all (Suc n) ks (ins n k t)"

fun root_of :: "'a tree \<Rightarrow> ref" where
  "root_of Leaf = None"
| "root_of (Branch a l x r) = Some a"


text \<open>What a traversal of \<open>t\<close> returns.\<close>

fun ret_of :: "'a tree \<Rightarrow> jsvoid" where
  "ret_of Leaf = Null"
| "ret_of (Branch a l x r) = Undefined"

subsection \<open>A small tree in the heap\<close>

text \<open>
  The tree with root 2 and children 1 and 3, as three objects at addresses 0, 1 and 2;
  the theorems below are instantiated on it.
\<close>

definition example_world :: "int world" where
  "example_world =
     \<lparr>heap = [\<lparr>left = Some 1, right = Some 2, data = 2\<rparr>,
              \<lparr>left = None, right = None, data = 1\<rparr>,
              \<lparr>left = None, right = None, data = 3\<rparr>],
      console = []\<rparr>"

definition example_tree :: "int tree" where
  "example_tree = Branch 0 (Branch 1 Leaf 1 Leaf) 2 (Branch 2 Leaf 3 Leaf)"


text \<open>The world the demo component's six inserts leave behind, starting from nothing.\<close>

definition demo_world :: "int world" where
  "demo_world =
     \<lparr>heap = [\<lparr>left = Some 1, right = Some 4, data = 4\<rparr>,
              \<lparr>left = Some 2, right = Some 3, data = 2\<rparr>,
              \<lparr>left = None, right = None, data = 1\<rparr>,
              \<lparr>left = None, right = None, data = 3\<rparr>,
              \<lparr>left = Some 5, right = None, data = 6\<rparr>,
              \<lparr>left = None, right = None, data = 5\<rparr>],
      console = []\<rparr>"

section \<open>Properties of trees\<close>

lemma repr_root_of: "repr h r t \<Longrightarrow> r = root_of t"
  by (cases t; cases r) auto

lemma repr_addrs_bound: "repr h r t \<Longrightarrow> a \<in> set (addrs t) \<Longrightarrow> a < length h"
  by (induction t arbitrary: r) (case_tac r; auto)+

lemma repr_frame:
  "repr h r t \<Longrightarrow> length h \<le> length h' \<Longrightarrow> (\<forall>a \<in> set (addrs t). h' ! a = h ! a) \<Longrightarrow> repr h' r t"
proof (induction t arbitrary: r)
  case Leaf
  then show ?case by (cases r) auto
next
  case (Branch a l x rt)
  then show ?case by (cases r) auto
qed

lemma addrs_ins: "set (addrs (ins n k t)) = insert n (set (addrs t))"
  by (induction t) auto

lemma distinct_ins: "distinct (addrs t) \<Longrightarrow> n \<notin> set (addrs t) \<Longrightarrow> distinct (addrs (ins n k t))"
  by (induction t) (auto simp: addrs_ins)

lemma in_order_ins_mset: "mset (in_order (ins n k t)) = add_mset k (mset (in_order t))"
  by (induction t) auto

lemma in_order_ins_set: "set (in_order (ins n k t)) = insert k (set (in_order t))"
  by (induction t) auto

lemma ordered_ins: "ordered t \<Longrightarrow> ordered (ins n k t)"
  by (induction t) (auto simp: in_order_ins_set)

lemma ordered_sorted: "ordered t \<Longrightarrow> sorted (in_order t)"
  by (induction t) (auto simp: sorted_append less_imp_le intro: order_trans)

lemma nodes_ins: "nodes (ins n k t) = Suc (nodes t)"
  by (induction t) auto

lemma nodes_length: "nodes t = length (in_order t)"
  by (induction t) auto

lemma Min_insert_least: "finite A \<Longrightarrow> \<forall>y\<in>A. (x::'a::linorder) \<le> y \<Longrightarrow> Min (insert x A) = x"
  by (rule Min_eqI) auto

lemma Min_Un_left:
  assumes "finite A" "finite B" "A \<noteq> {}" "\<forall>y\<in>B. \<forall>x\<in>A. (x::'a::linorder) \<le> y"
  shows "Min (A \<union> B) = Min A"
proof (rule Min_eqI)
  show "finite (A \<union> B)" using assms by simp
  show "Min A \<in> A \<union> B" using assms Min_in[of A] by simp
  fix y assume "y \<in> A \<union> B"
  then show "Min A \<le> y"
  proof
    assume "y \<in> A" then show ?thesis using assms by simp
  next
    assume "y \<in> B"
    moreover have "Min A \<in> A" using assms by simp
    ultimately show ?thesis using assms(4) by blast
  qed
qed

lemma leftmost_Min: "ordered t \<Longrightarrow> t \<noteq> Leaf \<Longrightarrow> leftmost t = Some (Min (set (in_order t)))"
proof (induction t rule: leftmost.induct)
  case 1 then show ?case by simp
next
  case (2 a x r)
  then show ?case by (simp add: Min_insert_least less_imp_le)
next
  case (3 a b l1 y l2 x r)
  let ?l = "Branch b l1 y l2"
  have ih: "leftmost ?l = Some (Min (set (in_order ?l)))" using 3 by simp
  have "set (in_order (Branch a ?l x r)) = set (in_order ?l) \<union> insert x (set (in_order r))"
    by auto
  moreover have "Min (set (in_order ?l) \<union> insert x (set (in_order r))) = Min (set (in_order ?l))"
  proof (rule Min_Un_left)
    show "\<forall>y\<in>insert x (set (in_order r)). \<forall>z\<in>set (in_order ?l). z \<le> y"
    proof (intro ballI)
      fix u z assume u: "u \<in> insert x (set (in_order r))" and z: "z \<in> set (in_order ?l)"
      have zx: "z \<le> x" using 3(2) z by auto
      have "x \<le> u" using 3(2) u by (auto intro: less_imp_le)
      with zx show "z \<le> u" by simp
    qed
  qed simp_all
  ultimately show ?case using ih by simp
qed

section \<open>Running the operations on a tree in the heap\<close>

lemma repr_Branch_iff:
  "repr h r (Branch a l x rt) =
     (r = Some a \<and> a < length h \<and> data (h ! a) = x \<and>
      repr h (left (h ! a)) l \<and> repr h (right (h ! a)) rt)"
  by (cases r) auto

lemma repr_Leaf_iff: "repr h r Leaf = (r = None)"
  by (cases r) auto

lemma root_of_ins_Branch: "root_of (ins n k (Branch a l x rt)) = Some a"
  by simp

lemma insert_bst_tree:
  assumes "repr (heap w) r t" "distinct (addrs t)"
  shows "\<exists>h'. insert_bst w r k = Some (root_of (ins (length (heap w)) k t), w\<lparr>heap := h'\<rparr>)
            \<and> repr h' (root_of (ins (length (heap w)) k t)) (ins (length (heap w)) k t)
            \<and> length h' = Suc (length (heap w))
            \<and> (\<forall>a < length (heap w). a \<notin> set (addrs t) \<longrightarrow> h' ! a = heap w ! a)"
  using assms
proof (induction t arbitrary: r)
  case Leaf
  then have r: "r = None" by (simp add: repr_Leaf_iff)
  show ?case
    unfolding r
    by (subst insert_bst.simps,
        rule exI[of _ "heap w @ [\<lparr>left = None, right = None, data = k\<rparr>]"])
       (simp add: new_Node_def nth_append)
next
  case (Branch a l x rt)
  let ?h = "heap w"
  let ?n = "length ?h"
  from Branch.prems(1) have r: "r = Some a" and a: "a < ?n" and x: "data (?h ! a) = x"
    and rl: "repr ?h (left (?h ! a)) l" and rr: "repr ?h (right (?h ! a)) rt"
    by (simp_all add: repr_Branch_iff)
  from Branch.prems(2) have dl: "distinct (addrs l)" and dr: "distinct (addrs rt)"
    and al: "a \<notin> set (addrs l)" and ar: "a \<notin> set (addrs rt)"
    and disj: "set (addrs l) \<inter> set (addrs rt) = {}"
    by auto
  have a': "a < Suc ?n" using a by simp
  have bl: "\<And>b. b \<in> set (addrs l) \<Longrightarrow> b < ?n" using repr_addrs_bound[OF rl] by blast
  have br: "\<And>b. b \<in> set (addrs rt) \<Longrightarrow> b < ?n" using repr_addrs_bound[OF rr] by blast
  show ?case
  proof (cases "k \<le> x")
    case True
    from Branch.IH(1)[OF rl dl] obtain h1 where
      run: "insert_bst w (left (?h ! a)) k = Some (root_of (ins ?n k l), w\<lparr>heap := h1\<rparr>)"
      and rep1: "repr h1 (root_of (ins ?n k l)) (ins ?n k l)"
      and len1: "length h1 = Suc ?n"
      and fr1: "\<forall>b < ?n. b \<notin> set (addrs l) \<longrightarrow> h1 ! b = ?h ! b"
      by blast
    let ?h2 = "h1[a := (h1 ! a)\<lparr>left := root_of (ins ?n k l)\<rparr>]"
    have h1a: "h1 ! a = ?h ! a" using fr1 a al by simp
    have res: "insert_bst w r k = Some (Some a, w\<lparr>heap := ?h2\<rparr>)"
      unfolding r
      by (subst insert_bst.simps) (simp add: get_node_def set_left_def a a' x True run len1)
    have rep_l: "repr ?h2 (root_of (ins ?n k l)) (ins ?n k l)"
    proof (rule repr_frame[OF rep1])
      show "\<forall>b\<in>set (addrs (ins ?n k l)). ?h2 ! b = h1 ! b"
      proof
        fix b assume "b \<in> set (addrs (ins ?n k l))"
        then have "b \<noteq> a" using al a by (auto simp: addrs_ins)
        then show "?h2 ! b = h1 ! b" by simp
      qed
    qed simp
    have rep_r: "repr ?h2 (right (?h ! a)) rt"
    proof (rule repr_frame[OF rr])
      show "?n \<le> length ?h2" using len1 by simp
      show "\<forall>b\<in>set (addrs rt). ?h2 ! b = ?h ! b"
      proof
        fix b assume b: "b \<in> set (addrs rt)"
        then have "b \<noteq> a" "b \<notin> set (addrs l)" "b < ?n" using ar disj br by auto
        then show "?h2 ! b = ?h ! b" using fr1 by simp
      qed
    qed
    have h2a: "?h2 ! a = (?h ! a)\<lparr>left := root_of (ins ?n k l)\<rparr>"
      using a' len1 h1a by simp
    have rep: "repr ?h2 (Some a) (Branch a (ins ?n k l) x rt)"
      unfolding repr_Branch_iff h2a using a' len1 x rep_l rep_r by simp
    have fr: "\<forall>b < ?n. b \<notin> set (addrs (Branch a l x rt)) \<longrightarrow> ?h2 ! b = ?h ! b"
      using fr1 by simp
    have len2: "length ?h2 = Suc ?n" using len1 by simp
    have t': "ins ?n k (Branch a l x rt) = Branch a (ins ?n k l) x rt" using True by simp
    show ?thesis
      unfolding t' root_of.simps
      by (rule exI[of _ ?h2]) (intro conjI res rep fr len2)
  next
    case False
    from Branch.IH(2)[OF rr dr] obtain h1 where
      run: "insert_bst w (right (?h ! a)) k = Some (root_of (ins ?n k rt), w\<lparr>heap := h1\<rparr>)"
      and rep1: "repr h1 (root_of (ins ?n k rt)) (ins ?n k rt)"
      and len1: "length h1 = Suc ?n"
      and fr1: "\<forall>b < ?n. b \<notin> set (addrs rt) \<longrightarrow> h1 ! b = ?h ! b"
      by blast
    let ?h2 = "h1[a := (h1 ! a)\<lparr>right := root_of (ins ?n k rt)\<rparr>]"
    have h1a: "h1 ! a = ?h ! a" using fr1 a ar by simp
    have res: "insert_bst w r k = Some (Some a, w\<lparr>heap := ?h2\<rparr>)"
      unfolding r
      by (subst insert_bst.simps) (simp add: get_node_def set_right_def a a' x False run len1)
    have rep_r: "repr ?h2 (root_of (ins ?n k rt)) (ins ?n k rt)"
    proof (rule repr_frame[OF rep1])
      show "\<forall>b\<in>set (addrs (ins ?n k rt)). ?h2 ! b = h1 ! b"
      proof
        fix b assume "b \<in> set (addrs (ins ?n k rt))"
        then have "b \<noteq> a" using ar a by (auto simp: addrs_ins)
        then show "?h2 ! b = h1 ! b" by simp
      qed
    qed simp
    have rep_l: "repr ?h2 (left (?h ! a)) l"
    proof (rule repr_frame[OF rl])
      show "?n \<le> length ?h2" using len1 by simp
      show "\<forall>b\<in>set (addrs l). ?h2 ! b = ?h ! b"
      proof
        fix b assume b: "b \<in> set (addrs l)"
        then have "b \<noteq> a" "b \<notin> set (addrs rt)" "b < ?n" using al disj bl by auto
        then show "?h2 ! b = ?h ! b" using fr1 by simp
      qed
    qed
    have h2a: "?h2 ! a = (?h ! a)\<lparr>right := root_of (ins ?n k rt)\<rparr>"
      using a' len1 h1a by simp
    have rep: "repr ?h2 (Some a) (Branch a l x (ins ?n k rt))"
      unfolding repr_Branch_iff h2a using a' len1 x rep_l rep_r by simp
    have fr: "\<forall>b < ?n. b \<notin> set (addrs (Branch a l x rt)) \<longrightarrow> ?h2 ! b = ?h ! b"
      using fr1 by simp
    have len2: "length ?h2 = Suc ?n" using len1 by simp
    have t': "ins ?n k (Branch a l x rt) = Branch a l x (ins ?n k rt)" using False by simp
    show ?thesis
      unfolding t' root_of.simps
      by (rule exI[of _ ?h2]) (intro conjI res rep fr len2)
  qed
qed
lemma inOrder_tree:
  "repr (heap w) r t \<Longrightarrow> inOrder w r = Some (ret_of t, w\<lparr>console := console w @ in_order t\<rparr>)"
proof (induction t arbitrary: r w)
  case Leaf
  then show ?case by (subst inOrder.simps) (simp add: repr_Leaf_iff)
next
  case (Branch a l x rt)
  then show ?case
    by (subst inOrder.simps) (simp add: repr_Branch_iff get_node_def console_log_def)
qed

lemma preOrder_tree:
  "repr (heap w) r t \<Longrightarrow> preOrder w r = Some (ret_of t, w\<lparr>console := console w @ pre_order t\<rparr>)"
proof (induction t arbitrary: r w)
  case Leaf
  then show ?case by (subst preOrder.simps) (simp add: repr_Leaf_iff)
next
  case (Branch a l x rt)
  then show ?case
    by (subst preOrder.simps) (simp add: repr_Branch_iff get_node_def console_log_def)
qed

lemma postOrder_tree:
  "repr (heap w) r t \<Longrightarrow> postOrder w r = Some (ret_of t, w\<lparr>console := console w @ post_order t\<rparr>)"
proof (induction t arbitrary: r w)
  case Leaf
  then show ?case by (subst postOrder.simps) (simp add: repr_Leaf_iff)
next
  case (Branch a l x rt)
  then show ?case
    by (subst postOrder.simps) (simp add: repr_Branch_iff get_node_def console_log_def)
qed

lemma count_bst_tree: "repr (heap w) r t \<Longrightarrow> count_bst w r = Some (nodes t, w)"
proof (induction t arbitrary: r)
  case Leaf
  then show ?case by (subst count_bst.simps) (simp add: repr_Leaf_iff)
next
  case (Branch a l x rt)
  then show ?case
    by (subst count_bst.simps) (simp add: repr_Branch_iff get_node_def)
qed

lemma min_loop_tree:
  "repr (heap w) (Some a) t \<Longrightarrow> \<exists>v. leftmost t = Some v \<and> min_loop w a (data (heap w ! a)) = Some (v, w)"
proof (induction t arbitrary: a)
  case Leaf
  then show ?case by simp
next
  case (Branch b l x rt)
  from Branch.prems have a: "b = a" "a < length (heap w)" "data (heap w ! a) = x"
    and rl: "repr (heap w) (left (heap w ! a)) l"
    by auto
  show ?case
  proof (cases l)
    case Leaf
    with rl have "left (heap w ! a) = None" by (simp add: repr_Leaf_iff)
    then show ?thesis using a Leaf
      by (subst min_loop.simps) (simp add: get_node_def)
  next
    case (Branch c l1 y l2)
    with rl have lc: "left (heap w ! a) = Some c" and c: "c < length (heap w)"
      and rc: "repr (heap w) (Some c) l"
      by (simp_all add: repr_Branch_iff)
    from Branch.IH(1)[OF rc] obtain v where
      v: "leftmost l = Some v" "min_loop w c (data (heap w ! c)) = Some (v, w)" by blast
    have "leftmost (tree.Branch b l x rt) = Some v" using v(1) Branch by simp
    moreover have "min_loop w a (data (heap w ! a)) = Some (v, w)"
      by (subst min_loop.simps) (simp add: get_node_def a lc c v(2))
    ultimately show ?thesis by simp
  qed
qed

lemma min_bst_tree: "repr (heap w) r t \<Longrightarrow> min_bst w r = Some (leftmost t, w)"
proof (cases r)
  case None
  assume "repr (heap w) r t"
  with None have "t = Leaf" by (cases t) auto
  with None show ?thesis by (simp add: min_bst_def)
next
  case (Some a)
  assume rp: "repr (heap w) r t"
  with Some have a: "a < length (heap w)" by (cases t) auto
  from min_loop_tree[of w a t] rp Some obtain v where
    "leftmost t = Some v" "min_loop w a (data (heap w ! a)) = Some (v, w)" by blast
  with Some a show ?thesis by (simp add: min_bst_def get_node_def)
qed

lemma addrs_ins_all_bound:
  "\<forall>a \<in> set (addrs t). a < n \<Longrightarrow> \<forall>a \<in> set (addrs (ins_all n ks t)). a < n + length ks"
proof (induction ks arbitrary: n t)
  case Nil then show ?case by simp
next
  case (Cons k ks)
  have "\<forall>a \<in> set (addrs (ins n k t)). a < Suc n" using Cons.prems by (auto simp: addrs_ins)
  from Cons.IH[OF this] show ?case by simp
qed

lemma in_order_ins_all_mset: "mset (in_order (ins_all n ks t)) = mset ks + mset (in_order t)"
  by (induction ks arbitrary: n t) (simp_all add: in_order_ins_mset)

lemma ordered_ins_all: "ordered t \<Longrightarrow> ordered (ins_all n ks t)"
  by (induction ks arbitrary: n t) (simp_all add: ordered_ins)

lemma nodes_ins_all: "nodes (ins_all n ks t) = nodes t + length ks"
  by (induction ks arbitrary: n t) (simp_all add: nodes_ins)

lemma forEach_insert_tree:
  assumes "repr (heap w) r t" "distinct (addrs t)"
  shows "\<exists>h'. forEach_insert w r ks =
                 Some (root_of (ins_all (length (heap w)) ks t), w\<lparr>heap := h'\<rparr>)
            \<and> repr h' (root_of (ins_all (length (heap w)) ks t)) (ins_all (length (heap w)) ks t)
            \<and> distinct (addrs (ins_all (length (heap w)) ks t))
            \<and> length h' = length (heap w) + length ks"
  using assms
proof (induction ks arbitrary: w r t)
  case Nil
  then show ?case using repr_root_of[of "heap w" r t]
    by (intro exI[of _ "heap w"]) simp
next
  case (Cons k ks)
  let ?n = "length (heap w)"
  from insert_bst_tree[OF Cons.prems, of k] obtain h1 where
    run: "insert_bst w r k = Some (root_of (ins ?n k t), w\<lparr>heap := h1\<rparr>)"
    and rep1: "repr h1 (root_of (ins ?n k t)) (ins ?n k t)"
    and len1: "length h1 = Suc ?n"
    by blast
  have "?n \<notin> set (addrs t)" using repr_addrs_bound[OF Cons.prems(1)] by blast
  then have d1: "distinct (addrs (ins ?n k t))" using Cons.prems(2) by (rule distinct_ins[rotated])
  let ?w1 = "w\<lparr>heap := h1\<rparr>"
  have rep1': "repr (heap ?w1) (root_of (ins ?n k t)) (ins ?n k t)" using rep1 by simp
  from Cons.IH[OF rep1' d1] obtain h' where
    "forEach_insert ?w1 (root_of (ins ?n k t)) ks =
       Some (root_of (ins_all (Suc ?n) ks (ins ?n k t)), ?w1\<lparr>heap := h'\<rparr>)"
    "repr h' (root_of (ins_all (Suc ?n) ks (ins ?n k t))) (ins_all (Suc ?n) ks (ins ?n k t))"
    "distinct (addrs (ins_all (Suc ?n) ks (ins ?n k t)))"
    "length h' = Suc ?n + length ks"
    using len1 by auto
  then show ?case using run
    by (intro exI[of _ h']) simp
qed

subsection \<open>What the read-only operations leave unchanged, on any heap\<close>

text \<open>
  These hold of every world, a tree or not: whenever a traversal returns, the heap is the
  one it started in, and whenever \<open>min\<close> or \<open>count\<close> returns, so is the whole world.
\<close>

lemma inOrder_heap:
  assumes "inOrder w r = Some (v, w')" shows "heap w' = heap w"
proof -
  have "heap (snd y) = heap w" if "inOrder w r = Some y" for y
  proof (rule inOrder.raw_induct[where P = "\<lambda>w r y. heap (snd y) = heap w", OF _ that], goal_cases)
    case (1 f w node y)
    from 1(2) show ?case
      by (cases node) (auto simp: bind_eq_Some_conv console_log_def dest!: 1(1))
  qed
  from this[OF assms] show ?thesis by simp
qed

lemma preOrder_heap:
  assumes "preOrder w r = Some (v, w')" shows "heap w' = heap w"
proof -
  have "heap (snd y) = heap w" if "preOrder w r = Some y" for y
  proof (rule preOrder.raw_induct[where P = "\<lambda>w r y. heap (snd y) = heap w", OF _ that], goal_cases)
    case (1 f w node y)
    from 1(2) show ?case
      by (cases node) (auto simp: bind_eq_Some_conv console_log_def dest!: 1(1))
  qed
  from this[OF assms] show ?thesis by simp
qed

lemma postOrder_heap:
  assumes "postOrder w r = Some (v, w')" shows "heap w' = heap w"
proof -
  have "heap (snd y) = heap w" if "postOrder w r = Some y" for y
  proof (rule postOrder.raw_induct[where P = "\<lambda>w r y. heap (snd y) = heap w", OF _ that], goal_cases)
    case (1 f w node y)
    from 1(2) show ?case
      by (cases node) (auto simp: bind_eq_Some_conv console_log_def dest!: 1(1))
  qed
  from this[OF assms] show ?thesis by simp
qed

lemma min_loop_world:
  assumes "min_loop w a m = Some (v, w')" shows "w' = w"
proof -
  have "snd y = w" if "min_loop w a m = Some y" for y
  proof (rule min_loop.raw_induct[where P = "\<lambda>w a m y. snd y = w", OF _ that], goal_cases)
    case (1 f w a m y)
    from 1(2) show ?case
      by (auto simp: bind_eq_Some_conv split: option.splits dest!: 1(1))
  qed
  from this[OF assms] show ?thesis by simp
qed

lemma min_bst_world:
  assumes "min_bst w r = Some (v, w')" shows "w' = w"
  using assms
  by (cases r) (auto simp: min_bst_def bind_eq_Some_conv dest: min_loop_world)

lemma count_bst_world:
  assumes "count_bst w r = Some (c, w')" shows "w' = w"
proof -
  have "snd y = w" if "count_bst w r = Some y" for y
  proof (rule count_bst.raw_induct[where P = "\<lambda>w r y. snd y = w", OF _ that], goal_cases)
    case (1 f w node y)
    from 1(2) show ?case
      by (cases node) (auto simp: bind_eq_Some_conv dest!: 1(1))
  qed
  from this[OF assms] show ?thesis by simp
qed

lemma repr_map_data:
  "repr h r t \<Longrightarrow>
   repr (map (\<lambda>n. \<lparr>left = left n, right = right n, data = f (data n)\<rparr>) h) r (map_tree f t)"
  by (induction t arbitrary: r) (simp_all add: repr_Branch_iff repr_Leaf_iff)

lemma nodes_map_tree: "nodes (map_tree f t) = nodes t"
  by (induction t) simp_all

section \<open>The claims\<close>

text \<open>
  In each theorem \<open>is_tree (heap w) r t\<close> is the spec's "tree": the reference \<open>r\<close>
  unfolds in the heap of \<open>w\<close> to the finite tree \<open>t\<close>, no node reached twice.
\<close>

lemma example_is_tree: "is_tree (heap example_world) (Some 0) example_tree"
  by (simp add: is_tree_def example_world_def example_tree_def)

text \<open>
  Claim C1. For every sequence of keys inserted one at a time from the empty tree
  (\<open>null\<close>), in whatever world the caller starts, the loop of inserts returns, and
  \<open>inOrder\<close> on the resulting root then logs exactly the inserted keys, in non-decreasing
  order.
\<close>

theorem inOrder_sorted_after_inserts:
  "\<exists>root w1 v out.
     forEach_insert w None ks = Some (root, w1) \<and>
     inOrder w1 root = Some (v, w1\<lparr>console := console w1 @ out\<rparr>) \<and>
     sorted out \<and> mset out = mset ks"
proof -
  let ?t = "ins_all (length (heap w)) ks Leaf"
  have "repr (heap w) None Leaf" "distinct (addrs (Leaf :: 'a tree))" by simp_all
  from forEach_insert_tree[OF this, of ks] obtain h' where
    run: "forEach_insert w None ks = Some (root_of ?t, w\<lparr>heap := h'\<rparr>)"
    and rep: "repr h' (root_of ?t) ?t"
    by blast
  let ?w1 = "w\<lparr>heap := h'\<rparr>"
  have "repr (heap ?w1) (root_of ?t) ?t" using rep by simp
  from inOrder_tree[OF this]
  have io: "inOrder ?w1 (root_of ?t) = Some (ret_of ?t, ?w1\<lparr>console := console ?w1 @ in_order ?t\<rparr>)" .
  have "ordered ?t" by (rule ordered_ins_all) simp
  then have so: "sorted (in_order ?t)" by (rule ordered_sorted)
  have ms: "mset (in_order ?t) = mset ks" by (simp add: in_order_ins_all_mset)
  from run io so ms show ?thesis by blast
qed

text \<open>
  Claim C2. \<open>insert\<close> preserves the ordering invariant: on a tree in the heap in which
  every key of a left subtree is \<open>\<le>\<close> and every key of a right subtree is \<open>>\<close> the
  key of its node, \<open>insert\<close> returns, and the root it returns is again such a tree, with
  the new key added to the keys.
\<close>

theorem insert_preserves_ordering:
  assumes "is_tree (heap w) root t" and "ordered t"
  shows "\<exists>root' w' t'.
           insert_bst w root key = Some (root', w') \<and>
           is_tree (heap w') root' t' \<and> ordered t' \<and>
           mset (in_order t') = add_mset key (mset (in_order t))"
proof -
  let ?n = "length (heap w)"
  from assms(1) have rp: "repr (heap w) root t" and d: "distinct (addrs t)"
    by (simp_all add: is_tree_def)
  from insert_bst_tree[OF rp d, of key] obtain h' where
    run: "insert_bst w root key = Some (root_of (ins ?n key t), w\<lparr>heap := h'\<rparr>)"
    and rep: "repr h' (root_of (ins ?n key t)) (ins ?n key t)"
    by blast
  have "?n \<notin> set (addrs t)" using repr_addrs_bound[OF rp] by blast
  with d have "distinct (addrs (ins ?n key t))" by (rule distinct_ins)
  with rep have "is_tree (heap (w\<lparr>heap := h'\<rparr>)) (root_of (ins ?n key t)) (ins ?n key t)"
    by (simp add: is_tree_def)
  moreover have "ordered (ins ?n key t)" using assms(2) by (rule ordered_ins)
  moreover have "mset (in_order (ins ?n key t)) = add_mset key (mset (in_order t))"
    by (rule in_order_ins_mset)
  ultimately show ?thesis using run by blast
qed

theorem insert_preserves_ordering_witness:
  "is_tree (heap example_world) (Some 0) example_tree \<and> ordered example_tree \<and>
   (\<exists>root' w' t'.
      insert_bst example_world (Some 0) 2 = Some (root', w') \<and>
      is_tree (heap w') root' t' \<and> ordered t' \<and>
      mset (in_order t') = add_mset 2 (mset (in_order example_tree)))"
proof -
  have o: "ordered example_tree" by (simp add: example_tree_def)
  from insert_preserves_ordering[OF example_is_tree o, of 2] example_is_tree o
  show ?thesis by simp
qed

lemma is_tree_Branch_cases:
  assumes "is_tree h (Some a) t"
  obtains l x rt where "t = Branch a l x rt" "a < length h" "data (h ! a) = x"
    "repr h (left (h ! a)) l" "repr h (right (h ! a)) rt"
    "distinct (addrs l)" "distinct (addrs rt)" "a \<notin> set (addrs l)" "a \<notin> set (addrs rt)"
  using assms by (cases t) (auto simp: is_tree_def)

text \<open>
  Claim C3. On the empty root \<open>insert\<close> returns a new node holding the key, with both
  links \<open>null\<close>, and touches nothing else. On a tree with root object \<open>a\<close> it inserts
  into the left subtree when \<open>key \<le> a.data\<close> (so an equal key goes left) and into the
  right subtree otherwise; that call returns some reference \<open>c\<close>, the fields of \<open>a\<close> are
  still what they were, \<open>c\<close> is stored in the corresponding link of \<open>a\<close>, and the same
  reference \<open>a\<close> is returned. The call returns for every key, a duplicate included.
\<close>

theorem insert_bst_behaviour:
  "insert_bst w None key =
     Some (Some (length (heap w)),
           w\<lparr>heap := heap w @ [\<lparr>left = None, right = None, data = key\<rparr>]\<rparr>) \<and>
   (is_tree (heap w) (Some a) t \<longrightarrow>
      (\<exists>c w1.
         insert_bst w (if key \<le> data (heap w ! a) then left (heap w ! a)
                       else right (heap w ! a)) key = Some (c, w1) \<and>
         a < length (heap w1) \<and> heap w1 ! a = heap w ! a \<and>
         insert_bst w (Some a) key =
           Some (Some a,
                 w1\<lparr>heap := (heap w1)[a := if key \<le> data (heap w ! a)
                                            then (heap w ! a)\<lparr>left := c\<rparr>
                                            else (heap w ! a)\<lparr>right := c\<rparr>]\<rparr>)))"
proof (intro conjI impI)
  show "insert_bst w None key =
     Some (Some (length (heap w)),
           w\<lparr>heap := heap w @ [\<lparr>left = None, right = None, data = key\<rparr>]\<rparr>)"
    by (subst insert_bst.simps) (simp add: new_Node_def)
next
  let ?h = "heap w"
  let ?n = "length ?h"
  assume "is_tree ?h (Some a) t"
  then obtain l x rt where t: "t = Branch a l x rt" and a: "a < ?n" and x: "data (?h ! a) = x"
    and rl: "repr ?h (left (?h ! a)) l" and rr: "repr ?h (right (?h ! a)) rt"
    and dl: "distinct (addrs l)" and dr: "distinct (addrs rt)"
    and al: "a \<notin> set (addrs l)" and ar: "a \<notin> set (addrs rt)"
    by (rule is_tree_Branch_cases)
  let ?child = "if key \<le> data (?h ! a) then left (?h ! a) else right (?h ! a)"
  have "\<exists>c h1. insert_bst w ?child key = Some (c, w\<lparr>heap := h1\<rparr>) \<and> length h1 = Suc ?n \<and>
          h1 ! a = ?h ! a"
  proof (cases "key \<le> data (?h ! a)")
    case True
    from insert_bst_tree[OF rl dl, of key] a al True show ?thesis by auto
  next
    case False
    from insert_bst_tree[OF rr dr, of key] a ar False show ?thesis by auto
  qed
  then obtain c h1 where run: "insert_bst w ?child key = Some (c, w\<lparr>heap := h1\<rparr>)"
    and len1: "length h1 = Suc ?n" and h1a: "h1 ! a = ?h ! a"
    by blast
  have a1: "a < length h1" using a len1 by simp
  have "insert_bst w (Some a) key =
          Some (Some a, w\<lparr>heap := h1[a := if key \<le> data (?h ! a)
                                            then (?h ! a)\<lparr>left := c\<rparr>
                                            else (?h ! a)\<lparr>right := c\<rparr>]\<rparr>)"
  proof (cases "key \<le> data (?h ! a)")
    case True
    with run have "insert_bst w (left (?h ! a)) key = Some (c, w\<lparr>heap := h1\<rparr>)" by simp
    with True a a1 h1a show ?thesis
      by (subst insert_bst.simps) (simp add: get_node_def set_left_def)
  next
    case False
    with run have "insert_bst w (right (?h ! a)) key = Some (c, w\<lparr>heap := h1\<rparr>)" by simp
    with False a a1 h1a show ?thesis
      by (subst insert_bst.simps) (simp add: get_node_def set_right_def)
  qed
  with run a1 h1a show "\<exists>c w1.
         insert_bst w ?child key = Some (c, w1) \<and>
         a < length (heap w1) \<and> heap w1 ! a = heap w ! a \<and>
         insert_bst w (Some a) key =
           Some (Some a,
                 w1\<lparr>heap := (heap w1)[a := if key \<le> data (heap w ! a)
                                            then (heap w ! a)\<lparr>left := c\<rparr>
                                            else (heap w ! a)\<lparr>right := c\<rparr>]\<rparr>)"
    by (intro exI[of _ c] exI[of _ "w\<lparr>heap := h1\<rparr>"]) simp
qed

theorem insert_bst_behaviour_witness:
  "is_tree (heap example_world) (Some 0) example_tree \<and>
   (\<exists>c w1.
      insert_bst example_world (left (heap example_world ! 0)) 2 = Some (c, w1) \<and>
      insert_bst example_world (Some 0) 2 =
        Some (Some 0, w1\<lparr>heap := (heap w1)[0 := (heap example_world ! 0)\<lparr>left := c\<rparr>]\<rparr>))"
proof -
  have k: "(2::int) \<le> data (heap example_world ! 0)" by (simp add: example_world_def)
  from insert_bst_behaviour[of example_world 2 0 example_tree] example_is_tree k
  show ?thesis by auto
qed

lemma ins_all_Leaf_iff: "ins_all n ks t = Leaf \<longleftrightarrow> ks = [] \<and> t = Leaf"
  using nodes_ins_all[of n ks t] by (cases "ins_all n ks t"; cases t; cases ks) auto

lemma forEach_insert_empty:
  "\<exists>h'. forEach_insert w None ks =
            Some (root_of (ins_all (length (heap w)) ks Leaf), w\<lparr>heap := h'\<rparr>) \<and>
         repr h' (root_of (ins_all (length (heap w)) ks Leaf)) (ins_all (length (heap w)) ks Leaf)"
proof -
  have "repr (heap w) None Leaf" "distinct (addrs (Leaf :: 'a tree))" by simp_all
  from forEach_insert_tree[OF this, of ks] show ?thesis by blast
qed

text \<open>
  Claim C4. \<open>min\<close> of the empty tree returns \<open>null\<close> (the result \<open>None\<close>), not an
  error. On a non-empty tree it returns the data of the node reached by walking left
  links until there is none. After any sequence of inserts from the empty tree that
  value is the smallest inserted key (and \<open>null\<close> when nothing was inserted).
\<close>

theorem min_bst_result:
  "min_bst w None = Some (None, w) \<and>
   (is_tree (heap w) (Some a) t \<longrightarrow>
      (\<exists>v. leftmost t = Some v \<and> min_bst w (Some a) = Some (Some v, w))) \<and>
   (\<exists>root w1. forEach_insert w None ks = Some (root, w1) \<and>
      min_bst w1 root = Some (if ks = [] then None else Some (Min (set ks)), w1))"
proof (intro conjI impI)
  show "min_bst w None = Some (None, w)" by (simp add: min_bst_def)
next
  assume "is_tree (heap w) (Some a) t"
  then have rp: "repr (heap w) (Some a) t" by (simp add: is_tree_def)
  then obtain v where "leftmost t = Some v" using min_loop_tree by blast
  with min_bst_tree[OF rp]
  show "\<exists>v. leftmost t = Some v \<and> min_bst w (Some a) = Some (Some v, w)" by simp
next
  let ?t = "ins_all (length (heap w)) ks Leaf"
  from forEach_insert_empty[of w ks] obtain h' where
    run: "forEach_insert w None ks = Some (root_of ?t, w\<lparr>heap := h'\<rparr>)"
    and rep: "repr h' (root_of ?t) ?t"
    by blast
  let ?w1 = "w\<lparr>heap := h'\<rparr>"
  have "repr (heap ?w1) (root_of ?t) ?t" using rep by simp
  from min_bst_tree[OF this] have m: "min_bst ?w1 (root_of ?t) = Some (leftmost ?t, ?w1)" .
  have "leftmost ?t = (if ks = [] then None else Some (Min (set ks)))"
  proof (cases "ks = []")
    case True
    then show ?thesis by simp
  next
    case False
    then have ne: "?t \<noteq> Leaf" by (simp add: ins_all_Leaf_iff)
    have o: "ordered ?t" by (rule ordered_ins_all) simp
    have "mset (in_order ?t) = mset ks" by (simp add: in_order_ins_all_mset)
    then have "set (in_order ?t) = set ks" by (rule mset_eq_setD)
    with leftmost_Min[OF o ne] False show ?thesis by simp
  qed
  with m run show "\<exists>root w1. forEach_insert w None ks = Some (root, w1) \<and>
      min_bst w1 root = Some (if ks = [] then None else Some (Min (set ks)), w1)"
    by simp
qed

theorem min_bst_result_witness:
  "is_tree (heap example_world) (Some 0) example_tree \<and>
   leftmost example_tree = Some 1 \<and> min_bst example_world (Some 0) = Some (Some 1, example_world)"
proof -
  have l: "leftmost example_tree = Some 1" by (simp add: example_tree_def)
  from min_bst_result[of example_world 0 example_tree] example_is_tree l
  show ?thesis by auto
qed

text \<open>
  Claim C5. \<open>count\<close> is 0 on the empty tree and one more than the counts of the two
  subtrees on a node; it does not depend on the keys (replacing every key by its image
  under any function gives the same count); after inserting the keys \<open>ks\<close> from the empty
  tree it is \<open>length ks\<close>, duplicates or not.
\<close>

theorem count_bst_result:
  "count_bst w None = Some (0, w) \<and>
   (is_tree (heap w) (Some a) t \<longrightarrow>
      (\<exists>cl cr. count_bst w (left (heap w ! a)) = Some (cl, w) \<and>
               count_bst w (right (heap w ! a)) = Some (cr, w) \<and>
               count_bst w (Some a) = Some (1 + cl + cr, w))) \<and>
   (is_tree (heap w) r t' \<longrightarrow>
      map_option fst
        (count_bst \<lparr>heap = map (\<lambda>n. \<lparr>left = left n, right = right n, data = f (data n)\<rparr>) (heap w),
                    console = c\<rparr> r) =
      map_option fst (count_bst w r)) \<and>
   (\<exists>root w1. forEach_insert w None ks = Some (root, w1) \<and>
      count_bst w1 root = Some (length ks, w1))"
proof (intro conjI impI)
  show "count_bst w None = Some (0, w)" by (subst count_bst.simps) simp
next
  assume "is_tree (heap w) (Some a) t"
  then obtain l x rt where t: "t = Branch a l x rt" and a: "a < length (heap w)"
    and rl: "repr (heap w) (left (heap w ! a)) l" and rr: "repr (heap w) (right (heap w ! a)) rt"
    by (rule is_tree_Branch_cases)
  have cl: "count_bst w (left (heap w ! a)) = Some (nodes l, w)" by (rule count_bst_tree[OF rl])
  have cr: "count_bst w (right (heap w ! a)) = Some (nodes rt, w)" by (rule count_bst_tree[OF rr])
  have "count_bst w (Some a) = Some (1 + nodes l + nodes rt, w)"
    by (subst count_bst.simps) (simp add: get_node_def a cl cr)
  with cl cr show "\<exists>cl cr. count_bst w (left (heap w ! a)) = Some (cl, w) \<and>
               count_bst w (right (heap w ! a)) = Some (cr, w) \<and>
               count_bst w (Some a) = Some (1 + cl + cr, w)"
    by blast
next
  let ?w' = "\<lparr>heap = map (\<lambda>n. \<lparr>left = left n, right = right n, data = f (data n)\<rparr>) (heap w),
             console = c\<rparr>"
  assume "is_tree (heap w) r t'"
  then have rp: "repr (heap w) r t'" by (simp add: is_tree_def)
  have "repr (heap ?w') r (map_tree f t')" using repr_map_data[OF rp, of f] by simp
  from count_bst_tree[OF this] count_bst_tree[OF rp]
  show "map_option fst (count_bst ?w' r) = map_option fst (count_bst w r)"
    by (simp add: nodes_map_tree)
next
  let ?t = "ins_all (length (heap w)) ks Leaf"
  from forEach_insert_empty[of w ks] obtain h' where
    run: "forEach_insert w None ks = Some (root_of ?t, w\<lparr>heap := h'\<rparr>)"
    and rep: "repr h' (root_of ?t) ?t"
    by blast
  let ?w1 = "w\<lparr>heap := h'\<rparr>"
  have "repr (heap ?w1) (root_of ?t) ?t" using rep by simp
  from count_bst_tree[OF this] have "count_bst ?w1 (root_of ?t) = Some (length ks, ?w1)"
    by (simp add: nodes_ins_all)
  with run show "\<exists>root w1. forEach_insert w None ks = Some (root, w1) \<and>
      count_bst w1 root = Some (length ks, w1)"
    by blast
qed

theorem count_bst_result_witness:
  "is_tree (heap example_world) (Some 0) example_tree \<and>
   (\<exists>cl cr. count_bst example_world (left (heap example_world ! 0)) = Some (cl, example_world) \<and>
            count_bst example_world (right (heap example_world ! 0)) = Some (cr, example_world) \<and>
            count_bst example_world (Some 0) = Some (1 + cl + cr, example_world)) \<and>
   map_option fst
     (count_bst \<lparr>heap = map (\<lambda>n. \<lparr>left = left n, right = right n, data = - data n\<rparr>)
                          (heap example_world),
                 console = []\<rparr> (Some 0)) =
   map_option fst (count_bst example_world (Some 0))"
proof -
  from count_bst_result[of example_world 0 example_tree "Some 0" example_tree uminus "[]"]
    example_is_tree
  show ?thesis by blast
qed

lemma ret_of_root: "repr h r t \<Longrightarrow> ret_of t = (if r = None then Null else Undefined)"
  by (cases t; cases r) auto

text \<open>
  Claim C6. On the empty tree each traversal logs nothing. On a tree \<open>t\<close> in the heap,
  \<open>inOrder\<close> logs its keys left-root-right, \<open>preOrder\<close> root-left-right and
  \<open>postOrder\<close> left-right-root. The sequence a traversal produces is what it writes to
  the console; its return value is \<open>null\<close> on the empty tree and \<open>undefined\<close> otherwise.
\<close>

theorem traversal_orders:
  "inOrder w None = Some (Null, w) \<and>
   preOrder w None = Some (Null, w) \<and>
   postOrder w None = Some (Null, w) \<and>
   (is_tree (heap w) (Some a) t \<longrightarrow>
      inOrder w (Some a) = Some (Undefined, w\<lparr>console := console w @ in_order t\<rparr>) \<and>
      preOrder w (Some a) = Some (Undefined, w\<lparr>console := console w @ pre_order t\<rparr>) \<and>
      postOrder w (Some a) = Some (Undefined, w\<lparr>console := console w @ post_order t\<rparr>))"
proof (intro conjI impI)
  show "inOrder w None = Some (Null, w)" by (subst inOrder.simps) simp
  show "preOrder w None = Some (Null, w)" by (subst preOrder.simps) simp
  show "postOrder w None = Some (Null, w)" by (subst postOrder.simps) simp
next
  assume "is_tree (heap w) (Some a) t"
  then have rp: "repr (heap w) (Some a) t" by (simp add: is_tree_def)
  have v: "ret_of t = Undefined" using ret_of_root[OF rp] by simp
  show "inOrder w (Some a) = Some (Undefined, w\<lparr>console := console w @ in_order t\<rparr>)"
    using inOrder_tree[OF rp] v by simp
  show "preOrder w (Some a) = Some (Undefined, w\<lparr>console := console w @ pre_order t\<rparr>)"
    using preOrder_tree[OF rp] v by simp
  show "postOrder w (Some a) = Some (Undefined, w\<lparr>console := console w @ post_order t\<rparr>)"
    using postOrder_tree[OF rp] v by simp
qed

theorem traversal_orders_witness:
  "is_tree (heap example_world) (Some 0) example_tree \<and>
   inOrder example_world (Some 0) = Some (Undefined, example_world\<lparr>console := [1, 2, 3]\<rparr>) \<and>
   preOrder example_world (Some 0) = Some (Undefined, example_world\<lparr>console := [2, 1, 3]\<rparr>) \<and>
   postOrder example_world (Some 0) = Some (Undefined, example_world\<lparr>console := [1, 3, 2]\<rparr>)"
proof -
  have c: "console example_world = []" by (simp add: example_world_def)
  have "in_order example_tree = [1, 2, 3]" "pre_order example_tree = [2, 1, 3]"
    "post_order example_tree = [1, 3, 2]"
    by (simp_all add: example_tree_def)
  with traversal_orders[of example_world 0 example_tree] example_is_tree c
  show ?thesis by simp
qed

text \<open>
  Claim C7. The three traversals are read-only: on every tree each of them returns and
  leaves the heap, that is every node's data and links, as it was.
\<close>

theorem traversals_read_only:
  assumes "is_tree (heap w) r t"
  shows "(\<exists>v w'. inOrder w r = Some (v, w') \<and> heap w' = heap w) \<and>
         (\<exists>v w'. preOrder w r = Some (v, w') \<and> heap w' = heap w) \<and>
         (\<exists>v w'. postOrder w r = Some (v, w') \<and> heap w' = heap w)"
proof -
  from assms have rp: "repr (heap w) r t" by (simp add: is_tree_def)
  have "\<exists>v w'. inOrder w r = Some (v, w') \<and> heap w' = heap w"
    using inOrder_tree[OF rp] by simp
  moreover have "\<exists>v w'. preOrder w r = Some (v, w') \<and> heap w' = heap w"
    using preOrder_tree[OF rp] by simp
  moreover have "\<exists>v w'. postOrder w r = Some (v, w') \<and> heap w' = heap w"
    using postOrder_tree[OF rp] by simp
  ultimately show ?thesis by blast
qed

theorem traversals_read_only_witness:
  "is_tree (heap example_world) (Some 0) example_tree \<and>
   (\<exists>v w'. inOrder example_world (Some 0) = Some (v, w') \<and> heap w' = heap example_world) \<and>
   (\<exists>v w'. preOrder example_world (Some 0) = Some (v, w') \<and> heap w' = heap example_world) \<and>
   (\<exists>v w'. postOrder example_world (Some 0) = Some (v, w') \<and> heap w' = heap example_world)"
  using traversals_read_only[OF example_is_tree] example_is_tree by blast

text \<open>
  Claim C8. Running a traversal twice in a row on the same tree, with no insert in
  between, logs the same sequence of keys both times.
\<close>

theorem traversal_twice_same_sequence:
  assumes "is_tree (heap w) r t"
  shows "(\<exists>out v1 w1 v2 w2. inOrder w r = Some (v1, w1) \<and> console w1 = console w @ out \<and>
            inOrder w1 r = Some (v2, w2) \<and> console w2 = console w1 @ out) \<and>
         (\<exists>out v1 w1 v2 w2. preOrder w r = Some (v1, w1) \<and> console w1 = console w @ out \<and>
            preOrder w1 r = Some (v2, w2) \<and> console w2 = console w1 @ out) \<and>
         (\<exists>out v1 w1 v2 w2. postOrder w r = Some (v1, w1) \<and> console w1 = console w @ out \<and>
            postOrder w1 r = Some (v2, w2) \<and> console w2 = console w1 @ out)"
proof (intro conjI)
  from assms have rp: "repr (heap w) r t" by (simp add: is_tree_def)
  {
    let ?w1 = "w\<lparr>console := console w @ in_order t\<rparr>"
    have rp1: "repr (heap ?w1) r t" using rp by simp
    let ?w2 = "?w1\<lparr>console := console ?w1 @ in_order t\<rparr>"
    have "inOrder w r = Some (ret_of t, ?w1)" by (rule inOrder_tree[OF rp])
    moreover have "console ?w1 = console w @ in_order t" by simp
    moreover have "inOrder ?w1 r = Some (ret_of t, ?w2)" by (rule inOrder_tree[OF rp1])
    moreover have "console ?w2 = console ?w1 @ in_order t" by simp
    ultimately
    show "\<exists>out v1 w1 v2 w2. inOrder w r = Some (v1, w1) \<and> console w1 = console w @ out \<and>
            inOrder w1 r = Some (v2, w2) \<and> console w2 = console w1 @ out"
      by blast
  }
  {
    let ?w1 = "w\<lparr>console := console w @ pre_order t\<rparr>"
    have rp1: "repr (heap ?w1) r t" using rp by simp
    let ?w2 = "?w1\<lparr>console := console ?w1 @ pre_order t\<rparr>"
    have "preOrder w r = Some (ret_of t, ?w1)" by (rule preOrder_tree[OF rp])
    moreover have "console ?w1 = console w @ pre_order t" by simp
    moreover have "preOrder ?w1 r = Some (ret_of t, ?w2)" by (rule preOrder_tree[OF rp1])
    moreover have "console ?w2 = console ?w1 @ pre_order t" by simp
    ultimately
    show "\<exists>out v1 w1 v2 w2. preOrder w r = Some (v1, w1) \<and> console w1 = console w @ out \<and>
            preOrder w1 r = Some (v2, w2) \<and> console w2 = console w1 @ out"
      by blast
  }
  {
    let ?w1 = "w\<lparr>console := console w @ post_order t\<rparr>"
    have rp1: "repr (heap ?w1) r t" using rp by simp
    let ?w2 = "?w1\<lparr>console := console ?w1 @ post_order t\<rparr>"
    have "postOrder w r = Some (ret_of t, ?w1)" by (rule postOrder_tree[OF rp])
    moreover have "console ?w1 = console w @ post_order t" by simp
    moreover have "postOrder ?w1 r = Some (ret_of t, ?w2)" by (rule postOrder_tree[OF rp1])
    moreover have "console ?w2 = console ?w1 @ post_order t" by simp
    ultimately
    show "\<exists>out v1 w1 v2 w2. postOrder w r = Some (v1, w1) \<and> console w1 = console w @ out \<and>
            postOrder w1 r = Some (v2, w2) \<and> console w2 = console w1 @ out"
      by blast
  }
qed

theorem traversal_twice_same_sequence_witness:
  "is_tree (heap example_world) (Some 0) example_tree \<and>
   (\<exists>out v1 w1 v2 w2. inOrder example_world (Some 0) = Some (v1, w1) \<and>
      console w1 = console example_world @ out \<and>
      inOrder w1 (Some 0) = Some (v2, w2) \<and> console w2 = console w1 @ out)"
  using traversal_twice_same_sequence[OF example_is_tree] example_is_tree by blast

text \<open>
  Claim C10. \<open>min\<close> is read-only: on every tree it returns and leaves the whole world,
  heap and console, as it was.
\<close>

theorem min_bst_read_only:
  assumes "is_tree (heap w) r t"
  shows "\<exists>v. min_bst w r = Some (v, w)"
proof -
  from assms have "repr (heap w) r t" by (simp add: is_tree_def)
  then show ?thesis by (simp add: min_bst_tree)
qed

theorem min_bst_read_only_witness:
  "is_tree (heap example_world) (Some 0) example_tree \<and>
   (\<exists>v. min_bst example_world (Some 0) = Some (v, example_world))"
  using min_bst_read_only[OF example_is_tree] example_is_tree by blast

lemma demo_build:
  "forEach_insert \<lparr>heap = [], console = []\<rparr> None [4, 2, 1, 3, 6, 5] = Some (Some 0, demo_world)"
  by code_simp

lemma demo_inOrder:
  "inOrder demo_world (Some 0) = Some (Undefined, demo_world\<lparr>console := [1, 2, 3, 4, 5, 6]\<rparr>)"
  by code_simp

lemma demo_count: "count_bst demo_world (Some 0) = Some (6, demo_world)"
  by code_simp

lemma demo_min: "min_bst demo_world (Some 0) = Some (Some 1, demo_world)"
  by code_simp

text \<open>
  Claim C9. Inserting 4, 2, 1, 3, 6, 5 in that order from the empty tree gives a tree
  on which \<open>inOrder\<close> logs 1, 2, 3, 4, 5, 6, \<open>count\<close> returns 6 and \<open>min\<close> returns 1.
\<close>

theorem demo_scenario:
  "forEach_insert \<lparr>heap = [], console = []\<rparr> None [4, 2, 1, 3, 6, 5] = Some (Some 0, demo_world) \<and>
   inOrder demo_world (Some 0) = Some (Undefined, demo_world\<lparr>console := [1, 2, 3, 4, 5, 6]\<rparr>) \<and>
   count_bst demo_world (Some 0) = Some (6, demo_world) \<and>
   min_bst demo_world (Some 0) = Some (Some 1, demo_world)"
  by (intro conjI demo_build demo_inOrder demo_count demo_min)

lemma executeNodeCase_demo:
  "executeNodeCase \<lparr>heap = [], console = []\<rparr> =
     Some (''Minimum value in BST is undefined'', demo_world\<lparr>console := [1, 2, 3, 4, 5, 6]\<rparr>)"
  by code_simp

end
